theory Spec2Isabelle
  imports Complex_Main
begin

section \<open>Values of the upstream events\<close>

text \<open>
  An upstream event is \<^verbatim>\<open>{ event: string; data: any }\<close>. The \<^verbatim>\<open>data\<close> field is what the
  LangGraph client decoded from the wire, so the model of \<^verbatim>\<open>any\<close> is the JSON universe
  plus \<^verbatim>\<open>undefined\<close> (an absent field). A number is kept by its value; the code only ever
  looks at whether it is zero. An object is the list of its own properties.
\<close>

datatype jsval =
    JUndefined
  | JNull
  | JBool bool
  | JNum rat
  | JStr string
  | JArr "jsval list"
  | JObj "(string \<times> jsval) list"

record LangGraphStreamEvent =
  event :: string
  data :: jsval

text \<open>
  \<^verbatim>\<open>TypeError\<close> is what the language raises on a property read from \<^verbatim>\<open>undefined\<close> or
  \<^verbatim>\<open>null\<close>; \<^verbatim>\<open>UpstreamError\<close> stands for whatever the upstream sequence itself throws
  (network drop, remote error).
\<close>

datatype error = TypeError | UpstreamError string

text \<open>Truthiness, as \<^verbatim>\<open>&&\<close> and \<^verbatim>\<open>if\<close> test it.\<close>

fun truthy :: "jsval \<Rightarrow> bool" where
  "truthy JUndefined = False"
| "truthy JNull = False"
| "truthy (JBool b) = b"
| "truthy (JNum q) = (q \<noteq> 0)"
| "truthy (JStr s) = (s \<noteq> [])"
| "truthy (JArr xs) = True"
| "truthy (JObj kvs) = True"

text \<open>
  \<^verbatim>\<open>v[i]\<close> for an array index \<^verbatim>\<open>i\<close>. An array gives its element or \<^verbatim>\<open>undefined\<close>, a
  string its \<^verbatim>\<open>i\<close>-th unit as a string, an object its property named by the decimal
  numeral of \<^verbatim>\<open>i\<close>, a boolean or a number \<^verbatim>\<open>undefined\<close>. On \<^verbatim>\<open>undefined\<close> and \<^verbatim>\<open>null\<close>
  the read throws.
\<close>

fun digit_char :: "nat \<Rightarrow> char" where
  "digit_char n = ''0123456789'' ! n"

fun index_key :: "nat \<Rightarrow> string" where
  "index_key n = (if n < 10 then [digit_char n] else index_key (n div 10) @ [digit_char (n mod 10)])"

declare index_key.simps [simp del]

fun own_property :: "(string \<times> jsval) list \<Rightarrow> string \<Rightarrow> jsval" where
  "own_property kvs k = (case map_of kvs k of None \<Rightarrow> JUndefined | Some v \<Rightarrow> v)"

fun get_index :: "jsval \<Rightarrow> nat \<Rightarrow> error + jsval" where
  "get_index JUndefined i = Inl TypeError"
| "get_index JNull i = Inl TypeError"
| "get_index (JBool b) i = Inr JUndefined"
| "get_index (JNum q) i = Inr JUndefined"
| "get_index (JStr s) i = Inr (if i < length s then JStr [s ! i] else JUndefined)"
| "get_index (JArr xs) i = Inr (if i < length xs then xs ! i else JUndefined)"
| "get_index (JObj kvs) i = Inr (own_property kvs (index_key i))"

text \<open>
  \<^verbatim>\<open>v[name]\<close> for the two names the adapter reads, \<^verbatim>\<open>langgraph_node\<close> and \<^verbatim>\<open>content\<close>:
  neither is a property of the built-in prototypes, so only an object can have one.
\<close>

fun get_named :: "jsval \<Rightarrow> string \<Rightarrow> error + jsval" where
  "get_named JUndefined k = Inl TypeError"
| "get_named JNull k = Inl TypeError"
| "get_named (JObj kvs) k = Inr (own_property kvs k)"
| "get_named v k = Inr JUndefined"

text \<open>\<^verbatim>\<open>v?.name\<close>: the optional chain gives \<^verbatim>\<open>undefined\<close> where the plain read throws.\<close>

fun get_optional :: "jsval \<Rightarrow> string \<Rightarrow> error + jsval" where
  "get_optional JUndefined k = Inr JUndefined"
| "get_optional JNull k = Inr JUndefined"
| "get_optional v k = get_named v k"

text \<open>
  \<^verbatim>\<open>streamingNodes.includes(x)\<close> on a \<^verbatim>\<open>string[]\<close>: only a string can be equal to a member.
\<close>

fun array_includes :: "string list \<Rightarrow> jsval \<Rightarrow> bool" where
  "array_includes nodes (JStr s) = (s \<in> set nodes)"
| "array_includes nodes v = False"

section \<open>Frames\<close>

text \<open>
  \<^verbatim>\<open>formatDataStreamPart\<close> is imported from the \<^verbatim>\<open>ai\<close> package. A frame is kept as the
  call that makes it: the part type and the value handed to the encoder.
\<close>

datatype frame = DataStreamPart string jsval

definition formatDataStreamPart :: "string \<Rightarrow> jsval \<Rightarrow> frame" where
  "formatDataStreamPart t v = DataStreamPart t v"

fun part_type :: "frame \<Rightarrow> string" where
  "part_type (DataStreamPart t v) = t"

fun part_value :: "frame \<Rightarrow> jsval" where
  "part_value (DataStreamPart t v) = v"

section \<open>The event filter: one turn of the loop of deltaMessagesGenerator\<close>

text \<open>
  The body of \<^verbatim>\<open>for await (const message of streamResponse)\<close> for one message:
  \<^verbatim>\<open>Inl e\<close> when a read throws, \<^verbatim>\<open>Inr None\<close> when nothing is yielded, \<^verbatim>\<open>Inr (Some f)\<close>
  when the frame \<^verbatim>\<open>f\<close> is yielded. The reads are made in the order of the source, and
  \<^verbatim>\<open>&&\<close> does not evaluate its right side when the left one is falsy.
\<close>

definition delta_body :: "string list \<Rightarrow> LangGraphStreamEvent \<Rightarrow> error + frame option" where
  "delta_body streamingNodes message =
     (if event message = ''messages'' then
        (case get_index (data message) 1 of
           Inl e \<Rightarrow> Inl e
         | Inr meta \<Rightarrow>
             if truthy meta then
               (case get_named meta ''langgraph_node'' of
                  Inl e \<Rightarrow> Inl e
                | Inr streaming_node \<Rightarrow>
                    (case get_index (data message) 0 of
                       Inl e \<Rightarrow> Inl e
                     | Inr msg \<Rightarrow>
                         if array_includes streamingNodes streaming_node then
                           (case get_optional msg ''content'' of
                              Inl e \<Rightarrow> Inl e
                            | Inr current \<Rightarrow>
                                if truthy current
                                then Inr (Some (formatDataStreamPart ''text'' current))
                                else Inr None)
                         else Inr None))
             else Inr None)
      else Inr None)"

section \<open>The upstream sequence\<close>

text \<open>
  \<^verbatim>\<open>streamResponse\<close> is an \<^verbatim>\<open>AsyncGenerator\<close> owned by the caller. It is modelled by what
  it still has to deliver: the events not yet handed out, then a normal end
  (\<^verbatim>\<open>failure = None\<close>) or a throw. \<^verbatim>\<open>returned\<close> records that \<^verbatim>\<open>return()\<close> was called on it,
  the signal on which the source releases its subscription. One call of \<^verbatim>\<open>next()\<close>
  settles as a yielded value, as done, or as a rejection.
\<close>

datatype 'a iter_result = Yield 'a | Done | Throw error

record upstream =
  pending :: "LangGraphStreamEvent list"
  failure :: "error option"
  returned :: bool

definition up_next :: "upstream \<Rightarrow> LangGraphStreamEvent iter_result \<times> upstream" where
  "up_next u =
     (case pending u of
        m # ms \<Rightarrow> (Yield m, u\<lparr>pending := ms\<rparr>)
      | [] \<Rightarrow> (case failure u of
                 Some e \<Rightarrow> (Throw e, u\<lparr>failure := None\<rparr>)
               | None \<Rightarrow> (Done, u)))"

definition up_return :: "upstream \<Rightarrow> upstream" where
  "up_return u = u\<lparr>pending := [], failure := None, returned := True\<rparr>"

section \<open>deltaMessagesGenerator\<close>

text \<open>
  The \<^verbatim>\<open>for await\<close> loop, from the point where it asks the upstream for the next message
  to the point where the generator next settles: at the \<^verbatim>\<open>yield\<close>, at the end of the
  upstream, or at a throw. A throw of the upstream leaves the loop as it is; a throw of
  the loop body closes the upstream iterator first, as \<^verbatim>\<open>for await\<close> does on every abrupt
  exit.
\<close>

function delta_loop :: "string list \<Rightarrow> upstream \<Rightarrow> frame iter_result \<times> upstream" where
  "delta_loop streamingNodes u =
     (case up_next u of
        (Done, u') \<Rightarrow> (Done, u')
      | (Throw e, u') \<Rightarrow> (Throw e, u')
      | (Yield message, u') \<Rightarrow>
          (case delta_body streamingNodes message of
             Inl e \<Rightarrow> (Throw e, up_return u')
           | Inr None \<Rightarrow> delta_loop streamingNodes u'
           | Inr (Some part) \<Rightarrow> (Yield part, u')))"
  by pat_completeness auto
termination
  by (relation "measure (\<lambda>(ns, u). length (pending u))")
     (auto simp: up_next_def split: list.splits option.splits)

declare delta_loop.simps [simp del]

text \<open>
  The generator object: not yet started, suspended at its \<^verbatim>\<open>yield\<close>, or completed.
  \<^verbatim>\<open>return()\<close> completes it; only when it is suspended at the \<^verbatim>\<open>yield\<close>, inside the loop,
  does leaving the loop close the upstream.
\<close>

datatype delta_state = DeltaNotStarted | DeltaSuspended | DeltaCompleted

definition delta_next ::
  "string list \<Rightarrow> delta_state \<times> upstream \<Rightarrow> frame iter_result \<times> delta_state \<times> upstream" where
  "delta_next streamingNodes g =
     (case g of
        (DeltaCompleted, u) \<Rightarrow> (Done, DeltaCompleted, u)
      | (_, u) \<Rightarrow>
          (case delta_loop streamingNodes u of
             (Yield part, u') \<Rightarrow> (Yield part, DeltaSuspended, u')
           | (Done, u') \<Rightarrow> (Done, DeltaCompleted, u')
           | (Throw e, u') \<Rightarrow> (Throw e, DeltaCompleted, u')))"

definition delta_return :: "delta_state \<times> upstream \<Rightarrow> delta_state \<times> upstream" where
  "delta_return g =
     (case g of
        (DeltaSuspended, u) \<Rightarrow> (DeltaCompleted, up_return u)
      | (_, u) \<Rightarrow> (DeltaCompleted, u))"

section \<open>fullDataStreamGenerator\<close>

text \<open>
  The generator is suspended before its first statement, at one of its four \<^verbatim>\<open>yield\<close>s,
  or completed. The default \<^verbatim>\<open>messageId = generateId()\<close> is evaluated once, when the
  generator is created, and is a parameter here. The inner generator is created when
  the loop is entered, which comes to the same as holding it unstarted until then.
\<close>

datatype full_state =
    NotStarted
  | AtStartStep
  | AtDelta
  | AtFinishStep
  | AtFinishMessage
  | Completed

record generator =
  gen_source :: upstream
  gen_nodes :: "string list"
  gen_messageId :: string
  gen_delta :: delta_state
  gen_state :: full_state

definition fullDataStreamGenerator :: "upstream \<Rightarrow> string list \<Rightarrow> string \<Rightarrow> generator" where
  "fullDataStreamGenerator streamResponse streamingNodes messageId =
     \<lparr>gen_source = streamResponse, gen_nodes = streamingNodes, gen_messageId = messageId,
      gen_delta = DeltaNotStarted, gen_state = NotStarted\<rparr>"

definition start_step_part :: "string \<Rightarrow> frame" where
  "start_step_part messageId =
     formatDataStreamPart ''start_step'' (JObj [(''messageId'', JStr messageId)])"

definition finish_step_part :: frame where
  "finish_step_part =
     formatDataStreamPart ''finish_step''
       (JObj [(''finishReason'', JStr ''stop''),
              (''usage'', JObj [(''promptTokens'', JNum 55), (''completionTokens'', JNum 20)]),
              (''isContinued'', JBool False)])"

definition finish_message_part :: frame where
  "finish_message_part =
     formatDataStreamPart ''finish_message''
       (JObj [(''finishReason'', JStr ''stop''),
              (''usage'', JObj [(''promptTokens'', JNum 55), (''completionTokens'', JNum 20)])])"

text \<open>The loop \<^verbatim>\<open>for await (const delta of deltaMessagesGenerator(...)) yield delta\<close>.\<close>

definition full_loop :: "generator \<Rightarrow> frame iter_result \<times> generator" where
  "full_loop g =
     (case delta_next (gen_nodes g) (gen_delta g, gen_source g) of
        (Yield delta, d, u) \<Rightarrow>
          (Yield delta, g\<lparr>gen_source := u, gen_delta := d, gen_state := AtDelta\<rparr>)
      | (Done, d, u) \<Rightarrow>
          (Yield finish_step_part,
           g\<lparr>gen_source := u, gen_delta := d, gen_state := AtFinishStep\<rparr>)
      | (Throw e, d, u) \<Rightarrow>
          (Throw e, g\<lparr>gen_source := u, gen_delta := d, gen_state := Completed\<rparr>))"

definition full_next :: "generator \<Rightarrow> frame iter_result \<times> generator" where
  "full_next g =
     (case gen_state g of
        NotStarted \<Rightarrow> (Yield (start_step_part (gen_messageId g)), g\<lparr>gen_state := AtStartStep\<rparr>)
      | AtStartStep \<Rightarrow> full_loop g
      | AtDelta \<Rightarrow> full_loop g
      | AtFinishStep \<Rightarrow> (Yield finish_message_part, g\<lparr>gen_state := AtFinishMessage\<rparr>)
      | AtFinishMessage \<Rightarrow> (Done, g\<lparr>gen_state := Completed\<rparr>)
      | Completed \<Rightarrow> (Done, g))"

text \<open>
  \<^verbatim>\<open>return()\<close> resumes the generator with a return at the \<^verbatim>\<open>yield\<close> where it is suspended.
  There is no \<^verbatim>\<open>try\<close>/\<^verbatim>\<open>finally\<close>: the only code that runs is the closing of the inner
  iterator when the suspended \<^verbatim>\<open>yield\<close> is the one inside the loop.
\<close>

definition full_return :: "generator \<Rightarrow> generator" where
  "full_return g =
     (case gen_state g of
        AtDelta \<Rightarrow>
          (case delta_return (gen_delta g, gen_source g) of
             (d, u) \<Rightarrow> g\<lparr>gen_source := u, gen_delta := d, gen_state := Completed\<rparr>)
      | _ \<Rightarrow> g\<lparr>gen_state := Completed\<rparr>)"

section \<open>asyncGeneratorToReadableStream\<close>

text \<open>
  The stream holds the generator, the chunks enqueued so far in the order of the
  \<^verbatim>\<open>enqueue\<close> calls, and its state. The controller follows the Streams standard:
  \<^verbatim>\<open>close\<close> and \<^verbatim>\<open>enqueue\<close> act on a readable stream only, a \<^verbatim>\<open>pull\<close> that rejects
  errors the stream, and cancelling a readable stream runs the \<^verbatim>\<open>cancel\<close> callback and
  closes the stream.
\<close>

datatype stream_state = Readable | Closed | Errored error

record readable_stream =
  generator :: generator
  chunks :: "frame list"
  state :: stream_state

definition controller_close :: "readable_stream \<Rightarrow> readable_stream" where
  "controller_close rs = (if state rs = Readable then rs\<lparr>state := Closed\<rparr> else rs)"

definition controller_enqueue :: "frame \<Rightarrow> readable_stream \<Rightarrow> readable_stream" where
  "controller_enqueue v rs =
     (if state rs = Readable then rs\<lparr>chunks := chunks rs @ [v]\<rparr> else rs)"

definition controller_error :: "error \<Rightarrow> readable_stream \<Rightarrow> readable_stream" where
  "controller_error e rs = (if state rs = Readable then rs\<lparr>state := Errored e\<rparr> else rs)"

definition asyncGeneratorToReadableStream :: "generator \<Rightarrow> readable_stream" where
  "asyncGeneratorToReadableStream g = \<lparr>generator = g, chunks = [], state = Readable\<rparr>"

definition pull :: "readable_stream \<Rightarrow> readable_stream" where
  "pull rs =
     (case full_next (generator rs) of
        (Done, g) \<Rightarrow> controller_close (rs\<lparr>generator := g\<rparr>)
      | (Yield v, g) \<Rightarrow> controller_enqueue v (rs\<lparr>generator := g\<rparr>)
      | (Throw e, g) \<Rightarrow> controller_error e (rs\<lparr>generator := g\<rparr>))"

text \<open>
  The \<^verbatim>\<open>cancel\<close> callback: an \<^verbatim>\<open>AsyncGenerator\<close> always has \<^verbatim>\<open>return\<close>, so it is called; the
  reason it is given becomes the value of the settled promise and is not observed.
\<close>

definition cancel :: "generator \<Rightarrow> generator" where
  "cancel g = full_return g"

fun pulls :: "nat \<Rightarrow> readable_stream \<Rightarrow> readable_stream" where
  "pulls 0 rs = rs"
| "pulls (Suc n) rs = pulls n (pull rs)"

section \<open>Response headers\<close>

text \<open>
  A \<^verbatim>\<open>Headers\<close> object is its header list, names in lower case (names compare without
  regard to case). \<^verbatim>\<open>set\<close> overwrites the first entry of the name and removes the others,
  or appends; \<^verbatim>\<open>get\<close> joins the values of the name. Names and values are taken to be
  valid and already normalised, as the ones the adapter passes are.
\<close>

type_synonym headers = "(string \<times> string) list"

definition lower_char :: "char \<Rightarrow> char" where
  "lower_char c =
     (case map_of (zip ''ABCDEFGHIJKLMNOPQRSTUVWXYZ'' ''abcdefghijklmnopqrstuvwxyz'') c of
        None \<Rightarrow> c
      | Some l \<Rightarrow> l)"

definition lower_name :: "string \<Rightarrow> string" where
  "lower_name name = map lower_char name"

definition headers_append :: "headers \<Rightarrow> string \<Rightarrow> string \<Rightarrow> headers" where
  "headers_append h name v = h @ [(lower_name name, v)]"

definition new_Headers :: "(string \<times> string) list \<Rightarrow> headers" where
  "new_Headers init = foldl (\<lambda>h (name, v). headers_append h name v) [] init"

definition headers_has :: "headers \<Rightarrow> string \<Rightarrow> bool" where
  "headers_has h name = (lower_name name \<in> set (map fst h))"

fun overwrite :: "string \<Rightarrow> string \<Rightarrow> headers \<Rightarrow> headers" where
  "overwrite n v [] = []"
| "overwrite n v ((k, w) # h) =
     (if k = n then (n, v) # filter (\<lambda>(k', w'). k' \<noteq> n) h else (k, w) # overwrite n v h)"

definition headers_set :: "headers \<Rightarrow> string \<Rightarrow> string \<Rightarrow> headers" where
  "headers_set h name v =
     (if headers_has h name then overwrite (lower_name name) v h else headers_append h name v)"

definition headers_get :: "headers \<Rightarrow> string \<Rightarrow> string option" where
  "headers_get h name =
     (case map snd (filter (\<lambda>(k, w). k = lower_name name) h) of
        [] \<Rightarrow> None
      | v # vs \<Rightarrow> Some (foldl (\<lambda>a b. a @ '', '' @ b) v vs))"

text \<open>
  \<^verbatim>\<open>prepareResponseHeaders\<close>: \<^verbatim>\<open>None\<close> is \<^verbatim>\<open>undefined\<close>, for the header set and for the
  optional \<^verbatim>\<open>dataStreamVersion\<close>.
\<close>

definition prepareResponseHeaders ::
  "(string \<times> string) list option \<Rightarrow> string \<Rightarrow> string option \<Rightarrow> headers" where
  "prepareResponseHeaders headers contentType dataStreamVersion =
     (let responseHeaders = new_Headers (case headers of None \<Rightarrow> [] | Some h \<Rightarrow> h);
          responseHeaders =
            (if \<not> headers_has responseHeaders ''Content-Type''
             then headers_set responseHeaders ''Content-Type'' contentType
             else responseHeaders);
          responseHeaders =
            (case dataStreamVersion of
               Some v \<Rightarrow> headers_set responseHeaders ''X-Vercel-AI-Data-Stream'' v
             | None \<Rightarrow> responseHeaders)
      in responseHeaders)"

section \<open>toDataStreamResponse\<close>

text \<open>
  The response: status, status text, headers and the stream. \<^verbatim>\<open>TextEncoderStream\<close> turns
  each chunk into its UTF-8 bytes and keeps their order and number, so the body is the
  stream of frames. \<^verbatim>\<open>generatedId\<close> is the result of the one call of \<^verbatim>\<open>generateId()\<close>.
\<close>

record response =
  status :: nat
  statusText :: string
  headers :: headers
  body :: readable_stream

definition toDataStreamResponse :: "upstream \<Rightarrow> string list \<Rightarrow> string \<Rightarrow> response" where
  "toDataStreamResponse streamResponse streamingNodes generatedId =
     (let fullGenerator = fullDataStreamGenerator streamResponse streamingNodes generatedId;
          readableStream = asyncGeneratorToReadableStream fullGenerator;
          responseStream = readableStream
      in \<lparr>status = 200, statusText = ''OK'',
          headers = prepareResponseHeaders (Some []) ''text/plain; charset=utf-8'' (Some ''v1''),
          body = responseStream\<rparr>)"

section \<open>Reference sequences\<close>

text \<open>
  What a session is expected to deliver, written with list functions over the events
  in arrival order. \<^verbatim>\<open>text_part_of\<close> is the frame the loop body yields for one event, if
  any; \<^verbatim>\<open>emitted\<close> collects these frames over the events before the first one on which
  the body throws; \<^verbatim>\<open>loop_end\<close> is how the loop ends: with the error of that event, or
  as the upstream itself ends.
\<close>

definition text_part_of :: "string list \<Rightarrow> LangGraphStreamEvent \<Rightarrow> frame option" where
  "text_part_of nodes m = (case delta_body nodes m of Inr (Some f) \<Rightarrow> Some f | _ \<Rightarrow> None)"

definition body_throws :: "string list \<Rightarrow> LangGraphStreamEvent \<Rightarrow> bool" where
  "body_throws nodes m = isl (delta_body nodes m)"

definition emitted :: "string list \<Rightarrow> LangGraphStreamEvent list \<Rightarrow> frame list" where
  "emitted nodes evs =
     List.map_filter (text_part_of nodes) (takeWhile (\<lambda>m. \<not> body_throws nodes m) evs)"

definition loop_end ::
  "string list \<Rightarrow> LangGraphStreamEvent list \<Rightarrow> error option \<Rightarrow> error option" where
  "loop_end nodes evs fin =
     (case dropWhile (\<lambda>m. \<not> body_throws nodes m) evs of
        [] \<Rightarrow> fin
      | m # ms \<Rightarrow> (case delta_body nodes m of Inl e \<Rightarrow> Some e | Inr r \<Rightarrow> fin))"

definition session_frames :: "upstream \<Rightarrow> string list \<Rightarrow> string \<Rightarrow> frame list" where
  "session_frames u nodes mid =
     start_step_part mid # emitted nodes (pending u) @
       (case loop_end nodes (pending u) (failure u) of
          None \<Rightarrow> [finish_step_part, finish_message_part]
        | Some e \<Rightarrow> [])"

text \<open>
  The frames the generator yields in its first \<^verbatim>\<open>n\<close> steps, by calling \<^verbatim>\<open>next()\<close> until it
  stops yielding: the order in which the sequencer produces them.
\<close>

fun produced :: "nat \<Rightarrow> generator \<Rightarrow> frame list" where
  "produced 0 g = []"
| "produced (Suc n) g =
     (case full_next g of (Yield f, g') \<Rightarrow> f # produced n g' | (Done, g') \<Rightarrow> [] | (Throw e, g') \<Rightarrow> [])"

definition session :: "upstream \<Rightarrow> string list \<Rightarrow> string \<Rightarrow> readable_stream" where
  "session u nodes mid = body (toDataStreamResponse u nodes mid)"

section \<open>A pull in flight\<close>

text \<open>
  A call of \<^verbatim>\<open>next()\<close> settles only when the upstream has something to give. While the
  source is open, that is while it may still produce events, and the loop has consumed
  all it has produced, the loop waits inside \<^verbatim>\<open>for await\<close>: the generator is running and
  the pull that called \<^verbatim>\<open>next()\<close> is in flight. An async generator takes its requests
  one at a time, so a \<^verbatim>\<open>return()\<close> that arrives then is queued behind the pending
  \<^verbatim>\<open>next()\<close> and runs when that has settled. The stream calls \<^verbatim>\<open>pull\<close> only while it is
  readable and no pull is in flight, as soon as the consumer has taken a chunk; it runs
  the \<^verbatim>\<open>cancel\<close> callback at once, also during a pull in flight, and is closed from then on.

  \<^verbatim>\<open>gen_source\<close> holds the events the source has produced and the loop has not consumed.
  The consumer pulls and cancels; the source produces an event, finishes or fails.
  \<^verbatim>\<open>waits\<close> holds when the next step of the generator asks an open source that has no
  event the loop would stop at; \<^verbatim>\<open>advance\<close> runs the generator, at a pull or when the
  source has given something to a pull in flight, up to the point where \<^verbatim>\<open>next()\<close>
  settles (then the rest of \<^verbatim>\<open>pull\<close> runs, and a queued \<^verbatim>\<open>return()\<close> after it) or waits
  again.
\<close>

record live =
  the_stream :: readable_stream
  source_open :: bool
  pulling :: bool
  return_queued :: bool

datatype action = Pull | Cancel | Produce LangGraphStreamEvent | Finish | Fail error

definition live_session :: "upstream \<Rightarrow> string list \<Rightarrow> string \<Rightarrow> live" where
  "live_session u nodes mid =
     \<lparr>the_stream = session u nodes mid, source_open = True, pulling = False,
      return_queued = False\<rparr>"

definition waits :: "live \<Rightarrow> bool" where
  "waits s =
     (let g = generator (the_stream s)
      in (gen_state g = AtStartStep \<or> gen_state g = AtDelta) \<and>
         gen_delta g \<noteq> DeltaCompleted \<and> source_open s \<and>
         fst (delta_loop (gen_nodes g) (gen_source g)) = Done)"

definition advance :: "live \<Rightarrow> live" where
  "advance s =
     (if waits s then
        (let g = generator (the_stream s);
             u = snd (delta_loop (gen_nodes g) (gen_source g))
         in s\<lparr>the_stream := (the_stream s)\<lparr>generator := g\<lparr>gen_source := u\<rparr>\<rparr>,
              pulling := True\<rparr>)
      else
        (let rs = pull (the_stream s)
         in if return_queued s
            then s\<lparr>the_stream := rs\<lparr>generator := cancel (generator rs)\<rparr>,
                   pulling := False, return_queued := False\<rparr>
            else s\<lparr>the_stream := rs, pulling := False\<rparr>))"

definition source_gives :: "(upstream \<Rightarrow> upstream) \<Rightarrow> bool \<Rightarrow> live \<Rightarrow> live" where
  "source_gives f still_open s =
     (let g = generator (the_stream s)
      in if source_open s \<and> \<not> returned (gen_source g) then
           (let s' = s\<lparr>the_stream := (the_stream s)\<lparr>generator := g\<lparr>gen_source := f (gen_source g)\<rparr>\<rparr>,
                       source_open := still_open\<rparr>
            in if pulling s then advance s' else s')
         else s)"

fun live_step :: "action \<Rightarrow> live \<Rightarrow> live" where
  "live_step Pull s =
     (if state (the_stream s) = Readable \<and> \<not> pulling s then advance s else s)"
| "live_step Cancel s =
     (if state (the_stream s) = Readable then
        (if pulling s
         then s\<lparr>the_stream := (the_stream s)\<lparr>state := Closed\<rparr>, return_queued := True\<rparr>
         else s\<lparr>the_stream := (the_stream s)\<lparr>generator := cancel (generator (the_stream s)),
                                               state := Closed\<rparr>\<rparr>)
      else s)"
| "live_step (Produce m) s = source_gives (\<lambda>u. u\<lparr>pending := pending u @ [m]\<rparr>) True s"
| "live_step Finish s = source_gives (\<lambda>u. u) False s"
| "live_step (Fail e) s = source_gives (\<lambda>u. u\<lparr>failure := Some e\<rparr>) False s"

fun run :: "action list \<Rightarrow> live \<Rightarrow> live" where
  "run [] s = s"
| "run (a # as) s = run as (live_step a s)"

section \<open>What a suspended generator still has to deliver\<close>

text \<open>
  For the proofs, the state of the generator is read as the frames it will still yield
  and the way it will then end. \<^verbatim>\<open>gen_inv\<close> holds of every state the generator reaches:
  as long as the loop has not been left, the inner generator is not completed, and once
  it has been left, the upstream has nothing more to deliver. \<^verbatim>\<open>steps n\<close> is the generator
  after \<^verbatim>\<open>n\<close> calls of \<^verbatim>\<open>next()\<close>.
\<close>

definition remaining :: "generator \<Rightarrow> frame list" where
  "remaining g =
     (case gen_state g of
        NotStarted \<Rightarrow> session_frames (gen_source g) (gen_nodes g) (gen_messageId g)
      | AtStartStep \<Rightarrow> tl (session_frames (gen_source g) (gen_nodes g) (gen_messageId g))
      | AtDelta \<Rightarrow> tl (session_frames (gen_source g) (gen_nodes g) (gen_messageId g))
      | AtFinishStep \<Rightarrow> [finish_message_part]
      | AtFinishMessage \<Rightarrow> []
      | Completed \<Rightarrow> [])"

definition in_loop :: "generator \<Rightarrow> bool" where
  "in_loop g = (gen_state g = NotStarted \<or> gen_state g = AtStartStep \<or> gen_state g = AtDelta)"

definition ending :: "generator \<Rightarrow> error option" where
  "ending g =
     (if in_loop g then loop_end (gen_nodes g) (pending (gen_source g)) (failure (gen_source g))
      else None)"

definition gen_inv :: "generator \<Rightarrow> bool" where
  "gen_inv g =
     (if in_loop g then gen_delta g \<noteq> DeltaCompleted
      else pending (gen_source g) = [] \<and> failure (gen_source g) = None)"

fun steps :: "nat \<Rightarrow> generator \<Rightarrow> generator" where
  "steps 0 g = g"
| "steps (Suc n) g = steps n (snd (full_next g))"

section \<open>Sample inputs\<close>

text \<open>
  The event of the scenarios of the specification, an upstream that delivers it and ends,
  one that delivers it and then fails, a source that has produced nothing yet, and an
  event of a producer outside the inclusion set.
\<close>

definition sample_event :: LangGraphStreamEvent where
  "sample_event =
     \<lparr>event = ''messages'',
      data = JArr [JObj [(''content'', JStr ''Hi'')],
                   JObj [(''langgraph_node'', JStr ''generate_message'')]]\<rparr>"

definition sample_upstream :: upstream where
  "sample_upstream = \<lparr>pending = [sample_event], failure = None, returned = False\<rparr>"

definition failing_upstream :: upstream where
  "failing_upstream =
     \<lparr>pending = [sample_event], failure = Some (UpstreamError ''reset''), returned = False\<rparr>"

definition silent_source :: upstream where
  "silent_source = \<lparr>pending = [], failure = None, returned = False\<rparr>"

definition other_event :: LangGraphStreamEvent where
  "other_event =
     \<lparr>event = ''messages'',
      data = JArr [JObj [(''content'', JStr ''thinking'')],
                   JObj [(''langgraph_node'', JStr ''plan'')]]\<rparr>"

section \<open>The loop and the generator, step by step\<close>

lemma emitted_Nil [simp]: "emitted nodes [] = []"
  by (simp add: emitted_def List.map_filter_simps)

lemma emitted_Cons:
  "emitted nodes (m # ms) =
     (case delta_body nodes m of
        Inl e \<Rightarrow> []
      | Inr None \<Rightarrow> emitted nodes ms
      | Inr (Some f) \<Rightarrow> f # emitted nodes ms)"
  by (simp add: emitted_def body_throws_def text_part_of_def List.map_filter_simps
           split: sum.splits option.splits)

lemma loop_end_Nil [simp]: "loop_end nodes [] fin = fin"
  by (simp add: loop_end_def)

lemma loop_end_Cons:
  "loop_end nodes (m # ms) fin =
     (case delta_body nodes m of Inl e \<Rightarrow> Some e | Inr r \<Rightarrow> loop_end nodes ms fin)"
  by (simp add: loop_end_def body_throws_def split: sum.splits)

lemma delta_loop_yield:
  "emitted nodes (pending u) = f # fs \<Longrightarrow>
   \<exists>u'. delta_loop nodes u = (Yield f, u') \<and> emitted nodes (pending u') = fs \<and>
        loop_end nodes (pending u') (failure u') = loop_end nodes (pending u) (failure u) \<and>
        returned u' = returned u"
proof (induction "pending u" arbitrary: u)
  case Nil
  then show ?case by simp
next
  case (Cons m ms)
  from Cons.hyps(2) have p: "pending u = m # ms" by simp
  show ?case
  proof (cases "delta_body nodes m")
    case (Inl e)
    with Cons.prems p show ?thesis by (simp add: emitted_Cons)
  next
    case (Inr r)
    show ?thesis
    proof (cases r)
      case None
      let ?u = "u\<lparr>pending := ms\<rparr>"
      have "emitted nodes (pending ?u) = f # fs"
        using Cons.prems p Inr None by (simp add: emitted_Cons)
      moreover have "ms = pending ?u" by simp
      ultimately obtain u' where
        "delta_loop nodes ?u = (Yield f, u')" "emitted nodes (pending u') = fs"
        "loop_end nodes (pending u') (failure u') = loop_end nodes (pending ?u) (failure ?u)"
        "returned u' = returned ?u"
        using Cons.hyps(1)[of ?u] by blast
      then show ?thesis
        using p Inr None
        by (subst delta_loop.simps) (simp add: up_next_def loop_end_Cons)
    next
      case (Some g)
      with Cons.prems p Inr show ?thesis
        by (subst delta_loop.simps) (simp add: up_next_def emitted_Cons loop_end_Cons)
    qed
  qed
qed

lemma delta_loop_end:
  "emitted nodes (pending u) = [] \<Longrightarrow>
   \<exists>u'. delta_loop nodes u =
          ((case loop_end nodes (pending u) (failure u) of None \<Rightarrow> Done | Some e \<Rightarrow> Throw e), u') \<and>
        pending u' = [] \<and> failure u' = None"
proof (induction "pending u" arbitrary: u)
  case Nil
  then show ?case
    by (subst delta_loop.simps) (simp add: up_next_def split: option.splits)
next
  case (Cons m ms)
  from Cons.hyps(2) have p: "pending u = m # ms" by simp
  show ?case
  proof (cases "delta_body nodes m")
    case (Inl e)
    with p show ?thesis
      by (subst delta_loop.simps) (simp add: up_next_def loop_end_Cons up_return_def)
  next
    case (Inr r)
    show ?thesis
    proof (cases r)
      case None
      let ?u = "u\<lparr>pending := ms\<rparr>"
      have "emitted nodes (pending ?u) = []"
        using Cons.prems p Inr None by (simp add: emitted_Cons)
      moreover have "ms = pending ?u" by simp
      ultimately obtain u' where
        "delta_loop nodes ?u =
          ((case loop_end nodes (pending ?u) (failure ?u) of None \<Rightarrow> Done | Some e \<Rightarrow> Throw e), u')"
        "pending u' = []" "failure u' = None"
        using Cons.hyps(1)[of ?u] by blast
      then show ?thesis
        using p Inr None
        by (subst delta_loop.simps) (simp add: up_next_def loop_end_Cons)
    next
      case (Some g)
      with Cons.prems p Inr show ?thesis by (simp add: emitted_Cons)
    qed
  qed
qed


lemma delta_next_yield:
  assumes "d \<noteq> DeltaCompleted" and "emitted nodes (pending u) = f # fs"
  shows "\<exists>u'. delta_next nodes (d, u) = (Yield f, DeltaSuspended, u') \<and>
          emitted nodes (pending u') = fs \<and>
          loop_end nodes (pending u') (failure u') = loop_end nodes (pending u) (failure u) \<and>
          returned u' = returned u"
proof -
  from delta_loop_yield[OF assms(2)] obtain u' where
    "delta_loop nodes u = (Yield f, u')" "emitted nodes (pending u') = fs"
    "loop_end nodes (pending u') (failure u') = loop_end nodes (pending u) (failure u)"
    "returned u' = returned u" by blast
  with assms(1) show ?thesis
    by (cases d) (simp_all add: delta_next_def)
qed

lemma delta_next_end:
  assumes "d \<noteq> DeltaCompleted" and "emitted nodes (pending u) = []"
  shows "\<exists>u'. delta_next nodes (d, u) =
           ((case loop_end nodes (pending u) (failure u) of None \<Rightarrow> Done | Some e \<Rightarrow> Throw e),
            DeltaCompleted, u') \<and> pending u' = [] \<and> failure u' = None"
proof -
  from delta_loop_end[OF assms(2)] obtain u' where
    "delta_loop nodes u =
       ((case loop_end nodes (pending u) (failure u) of None \<Rightarrow> Done | Some e \<Rightarrow> Throw e), u')"
    "pending u' = []" "failure u' = None" by blast
  with assms(1) show ?thesis
    by (cases d) (auto simp: delta_next_def split: option.splits)
qed

lemma full_loop_yield_step:
  assumes live: "gen_delta g \<noteq> DeltaCompleted"
    and em: "emitted (gen_nodes g) (pending (gen_source g)) = f # fs"
  shows "\<exists>g'. full_loop g = (Yield f, g') \<and> gen_state g' = AtDelta \<and>
          gen_delta g' = DeltaSuspended \<and> gen_nodes g' = gen_nodes g \<and>
          gen_messageId g' = gen_messageId g \<and>
          emitted (gen_nodes g) (pending (gen_source g')) = fs \<and>
          loop_end (gen_nodes g) (pending (gen_source g')) (failure (gen_source g')) =
            loop_end (gen_nodes g) (pending (gen_source g)) (failure (gen_source g))"
proof -
  from delta_next_yield[OF live em] obtain u' where
    "delta_next (gen_nodes g) (gen_delta g, gen_source g) = (Yield f, DeltaSuspended, u')"
    "emitted (gen_nodes g) (pending u') = fs"
    "loop_end (gen_nodes g) (pending u') (failure u') =
       loop_end (gen_nodes g) (pending (gen_source g)) (failure (gen_source g))" by blast
  then show ?thesis by (simp add: full_loop_def)
qed

lemma full_loop_end_step:
  assumes live: "gen_delta g \<noteq> DeltaCompleted"
    and em: "emitted (gen_nodes g) (pending (gen_source g)) = []"
  shows "\<exists>g'. full_loop g =
           ((case loop_end (gen_nodes g) (pending (gen_source g)) (failure (gen_source g)) of
               None \<Rightarrow> Yield finish_step_part | Some e \<Rightarrow> Throw e), g') \<and>
          gen_state g' =
            (case loop_end (gen_nodes g) (pending (gen_source g)) (failure (gen_source g)) of
               None \<Rightarrow> AtFinishStep | Some e \<Rightarrow> Completed) \<and>
          pending (gen_source g') = [] \<and> failure (gen_source g') = None"
proof -
  from delta_next_end[OF live em] obtain u' where
    "delta_next (gen_nodes g) (gen_delta g, gen_source g) =
       ((case loop_end (gen_nodes g) (pending (gen_source g)) (failure (gen_source g)) of
           None \<Rightarrow> Done | Some e \<Rightarrow> Throw e), DeltaCompleted, u')"
    "pending u' = []" "failure u' = None" by blast
  then show ?thesis by (simp add: full_loop_def split: option.splits)
qed

lemma loop_remaining:
  assumes "gen_state g = AtStartStep \<or> gen_state g = AtDelta"
  shows "remaining g =
           emitted (gen_nodes g) (pending (gen_source g)) @
             (case ending g of None \<Rightarrow> [finish_step_part, finish_message_part] | Some e \<Rightarrow> [])"
  using assms by (auto simp: remaining_def ending_def in_loop_def session_frames_def)

lemma loop_ending:
  assumes "gen_state g = AtStartStep \<or> gen_state g = AtDelta"
  shows "ending g = loop_end (gen_nodes g) (pending (gen_source g)) (failure (gen_source g))"
  using assms by (auto simp: ending_def in_loop_def)

lemma full_loop_yield:
  assumes st: "gen_state g = AtStartStep \<or> gen_state g = AtDelta"
    and live: "gen_delta g \<noteq> DeltaCompleted"
    and rem: "remaining g = f # fs"
  shows "\<exists>g'. full_loop g = (Yield f, g') \<and> gen_inv g' \<and> remaining g' = fs \<and>
          ending g' = ending g"
proof (cases "emitted (gen_nodes g) (pending (gen_source g))")
  case Nil
  with rem loop_remaining[OF st] have e: "ending g = None"
    and f: "f = finish_step_part" and fs: "fs = [finish_message_part]"
    by (auto split: option.splits)
  from e loop_ending[OF st]
  have le: "loop_end (gen_nodes g) (pending (gen_source g)) (failure (gen_source g)) = None"
    by simp
  from full_loop_end_step[OF live Nil] le obtain g' where
    g': "full_loop g = (Yield finish_step_part, g')" "gen_state g' = AtFinishStep"
      "pending (gen_source g') = []" "failure (gen_source g') = None"
    by auto
  then have "gen_inv g'" "remaining g' = [finish_message_part]" "ending g' = None"
    by (simp_all add: gen_inv_def in_loop_def remaining_def ending_def)
  with g' e f fs show ?thesis by simp
next
  case (Cons f' fs')
  from full_loop_yield_step[OF live Cons] obtain g' where
    g': "full_loop g = (Yield f', g')" "gen_state g' = AtDelta" "gen_delta g' = DeltaSuspended"
      "gen_nodes g' = gen_nodes g"
      "emitted (gen_nodes g) (pending (gen_source g')) = fs'"
      "loop_end (gen_nodes g) (pending (gen_source g')) (failure (gen_source g')) =
         loop_end (gen_nodes g) (pending (gen_source g)) (failure (gen_source g))"
    by blast
  from g'(2) have st': "gen_state g' = AtStartStep \<or> gen_state g' = AtDelta" by simp
  from g' loop_ending[OF st] loop_ending[OF st'] have en: "ending g' = ending g" by simp
  from g' have lv: "gen_inv g'" by (simp add: gen_inv_def in_loop_def)
  from loop_remaining[OF st'] g' en
  have "remaining g' =
          fs' @ (case ending g of None \<Rightarrow> [finish_step_part, finish_message_part] | Some e \<Rightarrow> [])"
    by simp
  moreover from rem loop_remaining[OF st] Cons
  have "f = f'"
    "fs = fs' @ (case ending g of None \<Rightarrow> [finish_step_part, finish_message_part] | Some e \<Rightarrow> [])"
    by simp_all
  ultimately show ?thesis using g'(1) lv en by simp
qed

lemma full_loop_end:
  assumes st: "gen_state g = AtStartStep \<or> gen_state g = AtDelta"
    and live: "gen_delta g \<noteq> DeltaCompleted"
    and rem: "remaining g = []"
  shows "\<exists>g' e. ending g = Some e \<and> full_loop g = (Throw e, g') \<and> gen_state g' = Completed \<and>
          gen_inv g'"
proof -
  from rem loop_remaining[OF st]
  have em: "emitted (gen_nodes g) (pending (gen_source g)) = []"
    and "ending g \<noteq> None"
    by (auto split: option.splits)
  then obtain e where e: "ending g = Some e" by auto
  with loop_ending[OF st]
  have le: "loop_end (gen_nodes g) (pending (gen_source g)) (failure (gen_source g)) = Some e"
    by simp
  from full_loop_end_step[OF live em] le obtain g' where
    g': "full_loop g = (Throw e, g')" "gen_state g' = Completed"
      "pending (gen_source g') = []" "failure (gen_source g') = None"
    by auto
  then have "gen_inv g'" by (simp add: gen_inv_def in_loop_def)
  with g' e show ?thesis by blast
qed

lemma full_next_yield:
  assumes "gen_inv g" and "remaining g = f # fs"
  shows "\<exists>g'. full_next g = (Yield f, g') \<and> gen_inv g' \<and> remaining g' = fs \<and>
          ending g' = ending g"
proof (cases "gen_state g")
  case NotStarted
  with assms show ?thesis
    by (simp add: full_next_def remaining_def gen_inv_def in_loop_def ending_def
          session_frames_def)
next
  case AtStartStep
  with assms(1) have live: "gen_delta g \<noteq> DeltaCompleted"
    by (simp add: gen_inv_def in_loop_def)
  from AtStartStep full_loop_yield[OF _ live assms(2)] show ?thesis
    by (simp add: full_next_def)
next
  case AtDelta
  with assms(1) have live: "gen_delta g \<noteq> DeltaCompleted"
    by (simp add: gen_inv_def in_loop_def)
  from AtDelta full_loop_yield[OF _ live assms(2)] show ?thesis
    by (simp add: full_next_def)
next
  case AtFinishStep
  with assms show ?thesis
    by (simp add: full_next_def remaining_def gen_inv_def in_loop_def ending_def)
next
  case AtFinishMessage
  with assms show ?thesis by (simp add: remaining_def)
next
  case Completed
  with assms show ?thesis by (simp add: remaining_def)
qed

lemma full_next_end:
  assumes "gen_inv g" and "remaining g = []"
  shows "\<exists>g'. full_next g = ((case ending g of None \<Rightarrow> Done | Some e \<Rightarrow> Throw e), g') \<and>
          gen_state g' = Completed \<and> gen_inv g'"
proof (cases "gen_state g")
  case NotStarted
  with assms show ?thesis by (simp add: remaining_def session_frames_def)
next
  case AtStartStep
  with assms(1) have live: "gen_delta g \<noteq> DeltaCompleted"
    by (simp add: gen_inv_def in_loop_def)
  from AtStartStep full_loop_end[OF _ live assms(2)] show ?thesis
    by (auto simp: full_next_def)
next
  case AtDelta
  with assms(1) have live: "gen_delta g \<noteq> DeltaCompleted"
    by (simp add: gen_inv_def in_loop_def)
  from AtDelta full_loop_end[OF _ live assms(2)] show ?thesis
    by (auto simp: full_next_def)
next
  case AtFinishStep
  with assms show ?thesis by (simp add: remaining_def)
next
  case AtFinishMessage
  with assms show ?thesis by (simp add: full_next_def ending_def in_loop_def gen_inv_def)
next
  case Completed
  with assms show ?thesis by (simp add: full_next_def ending_def in_loop_def gen_inv_def)
qed

lemma completed_stays:
  "gen_state g = Completed \<Longrightarrow> full_next g = (Done, g)"
  by (simp add: full_next_def)

lemma steps_completed:
  "gen_state g = Completed \<Longrightarrow> steps n g = g"
  by (induction n) (simp_all add: completed_stays)

lemma steps_remaining:
  assumes "gen_inv g"
  shows "gen_inv (steps n g) \<and> remaining (steps n g) = drop n (remaining g) \<and>
         ending (steps n g) = (if n \<le> length (remaining g) then ending g else None) \<and>
         (if n \<le> length (remaining g) then True else gen_state (steps n g) = Completed)"
  using assms
proof (induction n arbitrary: g)
  case 0
  then show ?case by simp
next
  case (Suc n)
  show ?case
  proof (cases "remaining g")
    case Nil
    from full_next_end[OF Suc.prems Nil] obtain g' where
      g': "snd (full_next g) = g'" "gen_state g' = Completed" "gen_inv g'"
      by auto
    then have "steps n g' = g'" by (simp add: steps_completed)
    with g' Nil show ?thesis
      by (simp add: remaining_def ending_def in_loop_def)
  next
    case (Cons f fs)
    from full_next_yield[OF Suc.prems Cons] obtain g' where
      g': "snd (full_next g) = g'" "gen_inv g'" "remaining g' = fs" "ending g' = ending g"
      by auto
    from Suc.IH[OF g'(2)] g' Cons show ?thesis by simp
  qed
qed

lemma pulls_generator: "generator (pulls n rs) = steps n (generator rs)"
proof (induction n arbitrary: rs)
  case 0
  then show ?case by simp
next
  case (Suc n)
  have "generator (pull rs) = snd (full_next (generator rs))"
    by (simp add: pull_def controller_close_def controller_enqueue_def controller_error_def
          split: prod.splits iter_result.splits)
  with Suc.IH[of "pull rs"] show ?case by simp
qed

lemma pull_stopped:
  "state rs \<noteq> Readable \<Longrightarrow> chunks (pull rs) = chunks rs \<and> state (pull rs) = state rs"
  by (simp add: pull_def controller_close_def controller_enqueue_def controller_error_def
        split: prod.splits iter_result.splits)

lemma pulls_stopped:
  "state rs \<noteq> Readable \<Longrightarrow> chunks (pulls n rs) = chunks rs \<and> state (pulls n rs) = state rs"
proof (induction n arbitrary: rs)
  case 0
  then show ?case by simp
next
  case (Suc n)
  from pull_stopped[OF Suc.prems] have "state (pull rs) \<noteq> Readable" using Suc.prems by simp
  from Suc.IH[OF this] pull_stopped[OF Suc.prems] show ?case by simp
qed

lemma pulls_remaining:
  assumes "gen_inv (generator rs)" and "state rs = Readable"
  shows "chunks (pulls n rs) = chunks rs @ take n (remaining (generator rs)) \<and>
         state (pulls n rs) =
           (if n \<le> length (remaining (generator rs)) then Readable
            else case ending (generator rs) of None \<Rightarrow> Closed | Some e \<Rightarrow> Errored e)"
  using assms
proof (induction n arbitrary: rs)
  case 0
  then show ?case by simp
next
  case (Suc n)
  show ?case
  proof (cases "remaining (generator rs)")
    case Nil
    from full_next_end[OF Suc.prems(1) Nil] obtain g' where
      g': "full_next (generator rs) =
             ((case ending (generator rs) of None \<Rightarrow> Done | Some e \<Rightarrow> Throw e), g')"
      by blast
    with Suc.prems(2) have
      p: "chunks (pull rs) = chunks rs"
         "state (pull rs) = (case ending (generator rs) of None \<Rightarrow> Closed | Some e \<Rightarrow> Errored e)"
      by (simp_all add: pull_def controller_close_def controller_error_def split: option.splits)
    then have "state (pull rs) \<noteq> Readable" by (simp split: option.splits)
    from pulls_stopped[OF this, of n] p Nil show ?thesis by simp
  next
    case (Cons f fs)
    from full_next_yield[OF Suc.prems(1) Cons] obtain g' where
      g': "full_next (generator rs) = (Yield f, g')" "gen_inv g'" "remaining g' = fs"
          "ending g' = ending (generator rs)"
      by blast
    with Suc.prems(2) have
      p: "generator (pull rs) = g'" "chunks (pull rs) = chunks rs @ [f]" "state (pull rs) = Readable"
      by (simp_all add: pull_def controller_enqueue_def)
    from Suc.IH[of "pull rs"] p g' Cons show ?thesis by simp
  qed
qed

lemma session_initial:
  "generator (session u nodes mid) = fullDataStreamGenerator u nodes mid \<and>
   chunks (session u nodes mid) = [] \<and> state (session u nodes mid) = Readable"
  by (simp add: session_def toDataStreamResponse_def asyncGeneratorToReadableStream_def)

lemma initial_generator:
  "gen_inv (fullDataStreamGenerator u nodes mid) \<and>
   remaining (fullDataStreamGenerator u nodes mid) = session_frames u nodes mid \<and>
   ending (fullDataStreamGenerator u nodes mid) = loop_end nodes (pending u) (failure u)"
  by (simp add: gen_inv_def remaining_def ending_def in_loop_def fullDataStreamGenerator_def)

lemma session_pulls:
  "chunks (pulls n (session u nodes mid)) = take n (session_frames u nodes mid) \<and>
   state (pulls n (session u nodes mid)) =
     (if n \<le> length (session_frames u nodes mid) then Readable
      else case loop_end nodes (pending u) (failure u) of None \<Rightarrow> Closed | Some e \<Rightarrow> Errored e)"
  using pulls_remaining[of "session u nodes mid" n] session_initial[of u nodes mid]
    initial_generator[of u nodes mid]
  by simp

lemma pulls_produced:
  "state rs = Readable \<Longrightarrow> chunks (pulls n rs) = chunks rs @ produced n (generator rs)"
proof (induction n arbitrary: rs)
  case 0
  then show ?case by simp
next
  case (Suc n)
  obtain r g' where fn: "full_next (generator rs) = (r, g')" by (cases "full_next (generator rs)")
  show ?case
  proof (cases r)
    case (Yield f)
    with fn Suc.prems have
      "generator (pull rs) = g'" "chunks (pull rs) = chunks rs @ [f]" "state (pull rs) = Readable"
      by (simp_all add: pull_def controller_enqueue_def)
    with Suc.IH[of "pull rs"] fn Yield show ?thesis by simp
  next
    case Done
    with fn Suc.prems have "chunks (pull rs) = chunks rs" "state (pull rs) \<noteq> Readable"
      by (simp_all add: pull_def controller_close_def)
    with pulls_stopped[of "pull rs" n] fn Done show ?thesis by simp
  next
    case (Throw e)
    with fn Suc.prems have "chunks (pull rs) = chunks rs" "state (pull rs) \<noteq> Readable"
      by (simp_all add: pull_def controller_error_def)
    with pulls_stopped[of "pull rs" n] fn Throw show ?thesis by simp
  qed
qed

section \<open>Property reads and the loop body\<close>

lemma get_named_tag_truthy: "get_named v k = Inr (JStr t) \<Longrightarrow> truthy v"
  by (cases v) simp_all

lemma array_includes_iff: "array_includes nodes v = (\<exists>t. v = JStr t \<and> t \<in> set nodes)"
  by (cases v) simp_all

lemma get_optional_total: "get_optional v k \<noteq> Inl e"
  by (cases v) simp_all

lemma get_optional_truthy:
  "(get_optional v k = Inr c \<and> truthy c) = (get_named v k = Inr c \<and> truthy c)"
  by (cases v) auto

lemma get_index_throws: "(get_index v i = Inl e) = (e = TypeError \<and> (v = JUndefined \<or> v = JNull))"
  by (cases v) auto

lemma get_named_throws: "(get_named v k = Inl e) = (e = TypeError \<and> (v = JUndefined \<or> v = JNull))"
  by (cases v) auto

lemma delta_body_throws_iff:
  "(delta_body nodes m = Inl e) =
     (e = TypeError \<and> event m = ''messages'' \<and> (data m = JUndefined \<or> data m = JNull))"
proof (cases "event m = ''messages''")
  case False
  then show ?thesis by (simp add: delta_body_def)
next
  case True
  show ?thesis
  proof (cases "get_index (data m) 1")
    case (Inl e')
    then have "e' = TypeError" and d: "data m = JUndefined \<or> data m = JNull"
      by (simp_all add: get_index_throws)
    with Inl True have "delta_body nodes m = Inl TypeError"
      by (simp add: delta_body_def)
    with True d show ?thesis by auto
  next
    case (Inr meta)
    have ok: "\<not> (data m = JUndefined \<or> data m = JNull)"
    proof
      assume "data m = JUndefined \<or> data m = JNull"
      then have "get_index (data m) 1 = Inl TypeError" by (simp add: get_index_throws)
      with Inr show False by simp
    qed
    obtain msg where msg: "get_index (data m) 0 = Inr msg"
    proof (cases "get_index (data m) 0")
      case (Inl e0)
      with ok show ?thesis by (simp add: get_index_throws)
    next
      case (Inr msg)
      then show ?thesis by (rule that)
    qed
    have "delta_body nodes m \<noteq> Inl e"
    proof (cases "truthy meta")
      case False
      with True Inr show ?thesis by (simp add: delta_body_def)
    next
      case t: True
      obtain sn where sn: "get_named meta ''langgraph_node'' = Inr sn"
      proof (cases "get_named meta ''langgraph_node''")
        case (Inl e1)
        then have "meta = JUndefined \<or> meta = JNull" by (simp add: get_named_throws)
        with t show ?thesis by auto
      next
        case (Inr sn)
        then show ?thesis by (rule that)
      qed
      obtain c where c: "get_optional msg ''content'' = Inr c"
        using get_optional_total[of msg "''content''"]
        by (cases "get_optional msg ''content''") auto
      from True Inr t sn msg c show ?thesis by (simp add: delta_body_def)
    qed
    with ok show ?thesis by simp
  qed
qed

lemma delta_body_yieldD:
  assumes L: "delta_body nodes m = Inr (Some f)"
  shows "event m = ''messages'' \<and>
      (\<exists>meta tag msg c.
          get_index (data m) 1 = Inr meta \<and>
          get_named meta ''langgraph_node'' = Inr (JStr tag) \<and> tag \<in> set nodes \<and>
          get_index (data m) 0 = Inr msg \<and>
          get_named msg ''content'' = Inr c \<and> truthy c \<and>
          f = formatDataStreamPart ''text'' c)"
proof -
  have ev: "event m = ''messages''"
  proof (rule ccontr)
    assume "event m \<noteq> ''messages''"
    with L show False by (simp add: delta_body_def)
  qed
  obtain meta where meta: "get_index (data m) 1 = Inr meta"
  proof (cases "get_index (data m) 1")
    case (Inl e)
    with L ev show ?thesis by (simp add: delta_body_def)
  next
    case (Inr meta)
    then show ?thesis by (rule that)
  qed
  have t: "truthy meta"
  proof (rule ccontr)
    assume "\<not> truthy meta"
    with L ev meta show False by (simp add: delta_body_def)
  qed
  obtain sn where sn: "get_named meta ''langgraph_node'' = Inr sn"
  proof (cases "get_named meta ''langgraph_node''")
    case (Inl e)
    with L ev meta t show ?thesis by (simp add: delta_body_def)
  next
    case (Inr sn)
    then show ?thesis by (rule that)
  qed
  obtain msg where msg: "get_index (data m) 0 = Inr msg"
  proof (cases "get_index (data m) 0")
    case (Inl e)
    with L ev meta t sn show ?thesis by (simp add: delta_body_def)
  next
    case (Inr msg)
    then show ?thesis by (rule that)
  qed
  have inc: "array_includes nodes sn"
  proof (rule ccontr)
    assume "\<not> array_includes nodes sn"
    with L ev meta t sn msg show False by (simp add: delta_body_def)
  qed
  then obtain tag where tag: "sn = JStr tag" "tag \<in> set nodes"
    by (auto simp: array_includes_iff)
  obtain c where c: "get_optional msg ''content'' = Inr c"
  proof (cases "get_optional msg ''content''")
    case (Inl e)
    with L ev meta t sn msg inc show ?thesis by (simp add: delta_body_def)
  next
    case (Inr c)
    then show ?thesis by (rule that)
  qed
  have tc: "truthy c"
  proof (rule ccontr)
    assume "\<not> truthy c"
    with L ev meta t sn msg inc c show False by (simp add: delta_body_def)
  qed
  from L ev meta t sn msg inc c tc have f: "f = formatDataStreamPart ''text'' c"
    by (simp add: delta_body_def)
  from c tc have "get_named msg ''content'' = Inr c"
    using get_optional_truthy[of msg "''content''" c] by simp
  with ev meta sn msg tag tc f show ?thesis by blast
qed

lemma delta_body_yield_iff:
  "(delta_body nodes m = Inr (Some f)) =
     (event m = ''messages'' \<and>
      (\<exists>meta tag msg c.
          get_index (data m) 1 = Inr meta \<and>
          get_named meta ''langgraph_node'' = Inr (JStr tag) \<and> tag \<in> set nodes \<and>
          get_index (data m) 0 = Inr msg \<and>
          get_named msg ''content'' = Inr c \<and> truthy c \<and>
          f = formatDataStreamPart ''text'' c))"
  (is "?L = ?R")
proof
  assume ?L
  then show ?R by (rule delta_body_yieldD)
next
  assume R: ?R
  then obtain meta tag msg c where
    ev: "event m = ''messages''" and
    meta: "get_index (data m) 1 = Inr meta" and
    sn: "get_named meta ''langgraph_node'' = Inr (JStr tag)" and
    tag: "tag \<in> set nodes" and
    msg: "get_index (data m) 0 = Inr msg" and
    c: "get_named msg ''content'' = Inr c" "truthy c" and
    f: "f = formatDataStreamPart ''text'' c"
    by blast
  from sn have t: "truthy meta" by (rule get_named_tag_truthy)
  from c have o: "get_optional msg ''content'' = Inr c"
    using get_optional_truthy[of msg "''content''" c] by simp
  from ev meta t sn tag msg o c(2) f show ?L
    by (simp add: delta_body_def)
qed

lemma delta_body_yield_text:
  "delta_body nodes m = Inr (Some f) \<Longrightarrow> part_type f = ''text''"
  by (auto dest!: delta_body_yieldD simp: formatDataStreamPart_def)

section \<open>Frames of a session\<close>

lemma part_types:
  "part_type (start_step_part mid) = ''start_step''"
  "part_type finish_step_part = ''finish_step''"
  "part_type finish_message_part = ''finish_message''"
  by (simp_all add: start_step_part_def finish_step_part_def finish_message_part_def
        formatDataStreamPart_def)

lemma emitted_text: "f \<in> set (emitted nodes evs) \<Longrightarrow> part_type f = ''text''"
proof -
  assume "f \<in> set (emitted nodes evs)"
  then obtain m where "text_part_of nodes m = Some f"
    by (auto simp: emitted_def List.map_filter_def)
  then have "delta_body nodes m = Inr (Some f)"
    by (simp add: text_part_of_def split: sum.splits option.splits)
  then show ?thesis by (rule delta_body_yield_text)
qed

lemma filter_text_take_emitted:
  "filter (\<lambda>f. part_type f = ''text'') (take k (emitted nodes evs @ rest)) =
     take k (emitted nodes evs) @
     filter (\<lambda>f. part_type f = ''text'') (take (k - length (emitted nodes evs)) rest)"
proof -
  have "filter (\<lambda>f. part_type f = ''text'') (take k (emitted nodes evs)) = take k (emitted nodes evs)"
    by (rule filter_True) (auto dest: in_set_takeD simp: emitted_text)
  then show ?thesis by simp
qed

lemma filter_text_session_frames:
  "filter (\<lambda>f. part_type f = ''text'') (take n (session_frames u nodes mid)) =
     take (n - 1) (emitted nodes (pending u))"
proof (cases n)
  case 0
  then show ?thesis by simp
next
  case (Suc k)
  have tail: "filter (\<lambda>f. part_type f = ''text'')
          (take j (case loop_end nodes (pending u) (failure u) of
                     None \<Rightarrow> [finish_step_part, finish_message_part] | Some e \<Rightarrow> [])) = []" for j
    by (auto simp: filter_empty_conv part_types dest!: in_set_takeD split: option.splits)
  show ?thesis
    unfolding session_frames_def Suc
    by (simp add: part_types filter_text_take_emitted tail del: take_append)
qed

lemma loop_end_None_iff:
  "(loop_end nodes evs fin = None) = (fin = None \<and> (\<forall>m \<in> set evs. \<not> body_throws nodes m))"
proof (induction evs)
  case Nil
  then show ?case by simp
next
  case (Cons m ms)
  then show ?case
    by (cases "delta_body nodes m") (simp_all add: loop_end_Cons body_throws_def)
qed

lemma loop_end_no_throw:
  "\<forall>m \<in> set evs. \<not> body_throws nodes m \<Longrightarrow> loop_end nodes evs fin = fin"
proof (induction evs)
  case Nil
  then show ?case by simp
next
  case (Cons m ms)
  then show ?case
    by (cases "delta_body nodes m") (simp_all add: loop_end_Cons body_throws_def)
qed

lemma pull_appends:
  "length (chunks (pull rs)) \<le> Suc (length (chunks rs)) \<and>
   take (length (chunks rs)) (chunks (pull rs)) = chunks rs"
  by (simp add: pull_def controller_close_def controller_enqueue_def controller_error_def
        split: prod.splits iter_result.splits)

lemma finish_values:
  "part_value finish_step_part =
     JObj [(''finishReason'', JStr ''stop''),
           (''usage'', JObj [(''promptTokens'', JNum 55), (''completionTokens'', JNum 20)]),
           (''isContinued'', JBool False)]"
  "part_value finish_message_part =
     JObj [(''finishReason'', JStr ''stop''),
           (''usage'', JObj [(''promptTokens'', JNum 55), (''completionTokens'', JNum 20)])]"
  by (simp_all add: finish_step_part_def finish_message_part_def formatDataStreamPart_def)

lemma session_frames_finish:
  assumes "f \<in> set (session_frames u nodes mid)"
  shows "(if part_type f = ''finish_step'' then f = finish_step_part else True) \<and>
         (if part_type f = ''finish_message'' then f = finish_message_part else True)"
proof -
  from assms consider "f = start_step_part mid" | "f \<in> set (emitted nodes (pending u))"
    | "f = finish_step_part" | "f = finish_message_part"
    by (auto simp: session_frames_def split: option.splits)
  then show ?thesis
  proof cases
    case 1
    then show ?thesis by (simp add: part_types)
  next
    case 2
    then have "part_type f = ''text''" by (rule emitted_text)
    then show ?thesis by simp
  next
    case 3
    then show ?thesis by (simp add: part_types)
  next
    case 4
    then show ?thesis by (simp add: part_types)
  qed
qed

section \<open>Completion\<close>

lemma full_next_done:
  "full_next g = (Done, g') \<Longrightarrow> gen_state g' = Completed"
  by (auto simp: full_next_def full_loop_def
        split: full_state.splits prod.splits iter_result.splits)

lemma pulls_after_done:
  assumes "gen_state (generator rs) = Completed" and "state rs \<noteq> Readable"
  shows "generator (pulls k rs) = generator rs \<and> chunks (pulls k rs) = chunks rs \<and>
         state (pulls k rs) = state rs"
  using assms pulls_stopped[of rs k] by (simp add: pulls_generator steps_completed)

lemma pulls_at_finish_message:
  assumes "gen_state (generator rs) = AtFinishMessage"
  shows "chunks (pulls k rs) = chunks rs \<and> fst (full_next (generator (pulls k rs))) = Done"
proof (cases k)
  case 0
  with assms show ?thesis by (simp add: full_next_def)
next
  case (Suc j)
  from assms have fn: "full_next (generator rs) = (Done, (generator rs)\<lparr>gen_state := Completed\<rparr>)"
    by (simp add: full_next_def)
  then have g: "gen_state (generator (pull rs)) = Completed"
    by (simp add: pull_def controller_close_def)
  from fn have c: "chunks (pull rs) = chunks rs" "state (pull rs) \<noteq> Readable"
    by (simp_all add: pull_def controller_close_def)
  from pulls_after_done[OF g c(2), of j] c(1) g Suc show ?thesis
    by (simp add: completed_stays)
qed

section \<open>Header lists\<close>

lemma overwrite_same:
  "n \<in> set (map fst h) \<Longrightarrow> filter (\<lambda>(k, w). k = n) (overwrite n v h) = [(n, v)]"
proof (induction h)
  case Nil
  then show ?case by simp
next
  case (Cons p h)
  obtain k w where p: "p = (k, w)" by (cases p)
  show ?case
  proof (cases "k = n")
    case True
    have "filter (\<lambda>(k, w). k = n) (filter (\<lambda>(k', w'). k' \<noteq> n) h) = []"
      by (induction h) auto
    with True p show ?thesis by simp
  next
    case False
    with Cons p show ?thesis by simp
  qed
qed

lemma overwrite_other:
  "n' \<noteq> n \<Longrightarrow> filter (\<lambda>(k, w). k = n') (overwrite n v h) = filter (\<lambda>(k, w). k = n') h"
proof (induction h)
  case Nil
  then show ?case by simp
next
  case (Cons p h)
  obtain k w where p: "p = (k, w)" by (cases p)
  have "filter (\<lambda>(k, w). k = n') (filter (\<lambda>(k', w'). k' \<noteq> n) h) = filter (\<lambda>(k, w). k = n') h"
    using Cons.prems by (induction h) auto
  with Cons p show ?case by simp
qed

lemma headers_get_set_same: "headers_get (headers_set h name v) name = Some v"
proof (cases "headers_has h name")
  case True
  then have "lower_name name \<in> set (map fst h)" by (simp add: headers_has_def)
  from overwrite_same[OF this] True show ?thesis
    by (simp add: headers_get_def headers_set_def)
next
  case False
  then have "filter (\<lambda>(k, w). k = lower_name name) h = []"
    by (force simp: headers_has_def filter_empty_conv)
  with False show ?thesis
    by (simp add: headers_get_def headers_set_def headers_append_def)
qed

lemma headers_get_set_other:
  assumes "lower_name name' \<noteq> lower_name name"
  shows "headers_get (headers_set h name v) name' = headers_get h name'"
proof (cases "headers_has h name")
  case True
  with overwrite_other[OF assms] show ?thesis
    by (simp add: headers_get_def headers_set_def)
next
  case False
  with assms show ?thesis
    by (simp add: headers_get_def headers_set_def headers_append_def)
qed

lemma lower_content_type: "lower_name ''Content-Type'' = ''content-type''"
  by code_simp

lemma lower_version: "lower_name ''X-Vercel-AI-Data-Stream'' = ''x-vercel-ai-data-stream''"
  by code_simp

lemma header_names_differ:
  "lower_name ''Content-Type'' \<noteq> lower_name ''X-Vercel-AI-Data-Stream''"
  by (simp add: lower_content_type lower_version)

section \<open>The sample inputs, evaluated\<close>

lemma sample_body:
  "delta_body [''generate_message''] sample_event =
     Inr (Some (formatDataStreamPart ''text'' (JStr ''Hi'')))"
  by (simp add: sample_event_def delta_body_def)

lemma sample_emitted:
  "emitted [''generate_message''] [sample_event] = [formatDataStreamPart ''text'' (JStr ''Hi'')]"
  by (simp add: emitted_Cons sample_body)

lemma sample_no_throw: "\<not> body_throws [''generate_message''] sample_event"
  by (simp add: body_throws_def sample_body)

lemma sample_drained:
  "state (pulls 4 (session sample_upstream [''generate_message''] ''id'')) = Readable"
  "gen_state (generator (pulls 4 (session sample_upstream [''generate_message''] ''id''))) =
     AtFinishMessage"
  by code_simp+

section \<open>The frame sequence of a session\<close>

text \<open>
  Claim C1 says that for every input event sequence that terminates normally the output
  is one Start frame, the Text frames, one StepFinish and one MessageFinish frame. Lemma
  \<^verbatim>\<open>session_pulls\<close> gives this for every input on which the loop body does not throw.
  It fails on an input that ends normally and holds a \<^verbatim>\<open>messages\<close> event whose data is
  \<^verbatim>\<open>null\<close>: the Start frame is delivered, the read of \<^verbatim>\<open>message.data[1]\<close> throws, the stream
  is errored, and neither StepFinish nor MessageFinish is ever delivered, however often
  the consumer pulls.
\<close>

theorem nullish_data_aborts_session:
  "chunks (pulls 4 (session \<lparr>pending = [\<lparr>event = ''messages'', data = JNull\<rparr>],
                               failure = None, returned = False\<rparr>
                     [''generate_message''] ''id'')) = [start_step_part ''id''] \<and>
   state (pulls 4 (session \<lparr>pending = [\<lparr>event = ''messages'', data = JNull\<rparr>],
                              failure = None, returned = False\<rparr>
                     [''generate_message''] ''id'')) = Errored TypeError"
  by code_simp

section \<open>The event filter\<close>

text \<open>
  Claim C2 says that an event produces a Text frame only if its message element carries
  non-empty text content, and that empty or missing content never produces one. The
  loop body tests \<^verbatim>\<open>msg?.content\<close> for truthiness and hands the content to
  \<^verbatim>\<open>formatDataStreamPart('text', ...)\<close> without looking at its type (lemma
  \<^verbatim>\<open>delta_body_yield_iff\<close>). A message whose content is the empty array carries no text,
  yet the array is truthy: the event produces a Text frame whose content is the array,
  and the session delivers it between the Start and the finish frames.
\<close>

theorem non_text_content_framed_as_text:
  "delta_body [''generate_message'']
     \<lparr>event = ''messages'',
      data = JArr [JObj [(''content'', JArr [])],
                   JObj [(''langgraph_node'', JStr ''generate_message'')]]\<rparr>
     = Inr (Some (formatDataStreamPart ''text'' (JArr []))) \<and>
   chunks (pulls 4 (session
     \<lparr>pending = [\<lparr>event = ''messages'',
                   data = JArr [JObj [(''content'', JArr [])],
                                JObj [(''langgraph_node'', JStr ''generate_message'')]]\<rparr>],
      failure = None, returned = False\<rparr> [''generate_message''] ''id''))
     = [start_step_part ''id'', formatDataStreamPart ''text'' (JArr []),
        finish_step_part, finish_message_part]"
  by code_simp

section \<open>Order of the frames\<close>

text \<open>
  Claim C3. After any number of pulls the chunks handed to the consumer are the frames
  the generator has produced, in the order of production; the Text frames among them
  are, in arrival order, the frames of the matching upstream events (those before the
  first event on which the loop body throws); and one pull adds at most one chunk behind
  the chunks already there, so nothing is reordered, merged or batched.
\<close>

theorem frames_in_arrival_order:
  "chunks (pulls n (session u nodes mid)) = produced n (fullDataStreamGenerator u nodes mid) \<and>
   filter (\<lambda>f. part_type f = ''text'') (chunks (pulls n (session u nodes mid))) =
     take (n - 1)
       (List.map_filter (text_part_of nodes)
          (takeWhile (\<lambda>m. \<not> body_throws nodes m) (pending u))) \<and>
   length (chunks (pull rs)) \<le> Suc (length (chunks rs)) \<and>
   take (length (chunks rs)) (chunks (pull rs)) = chunks rs"
proof -
  have "chunks (pulls n (session u nodes mid)) = produced n (fullDataStreamGenerator u nodes mid)"
    using pulls_produced[of "session u nodes mid" n] session_initial[of u nodes mid] by simp
  moreover have "filter (\<lambda>f. part_type f = ''text'') (chunks (pulls n (session u nodes mid))) =
      take (n - 1) (emitted nodes (pending u))"
    using session_pulls[of n u nodes mid] by (simp add: filter_text_session_frames)
  ultimately show ?thesis
    using pull_appends[of rs] by (simp add: emitted_def)
qed

text \<open>On the sample upstream, four pulls deliver the one Text frame of its event.\<close>

theorem frames_in_arrival_order_witness:
  "filter (\<lambda>f. part_type f = ''text'')
     (chunks (pulls 4 (session sample_upstream [''generate_message''] ''id''))) =
   [formatDataStreamPart ''text'' (JStr ''Hi'')]"
proof -
  have "List.map_filter (text_part_of [''generate_message''])
          (takeWhile (\<lambda>m. \<not> body_throws [''generate_message''] m) (pending sample_upstream)) =
        [formatDataStreamPart ''text'' (JStr ''Hi'')]"
    using sample_emitted by (simp add: emitted_def sample_upstream_def)
  moreover have "filter (\<lambda>f. part_type f = ''text'')
     (chunks (pulls 4 (session sample_upstream [''generate_message''] ''id''))) =
     take (4 - 1) (List.map_filter (text_part_of [''generate_message''])
          (takeWhile (\<lambda>m. \<not> body_throws [''generate_message''] m) (pending sample_upstream)))"
    by (rule frames_in_arrival_order[of 4 sample_upstream "[''generate_message'']" "''id''",
          THEN conjunct2, THEN conjunct1])
  ultimately show ?thesis by simp
qed

section \<open>Malformed events\<close>

text \<open>
  Claim C4 says that an event with an absent data structure is dropped silently. The
  loop body reads \<^verbatim>\<open>message.data[1]\<close> with no guard on \<^verbatim>\<open>message.data\<close>: when the kind is
  \<^verbatim>\<open>messages\<close> and the data is \<^verbatim>\<open>null\<close>, the read throws, the loop closes the upstream and
  the generator ends with the error. Lemma \<^verbatim>\<open>delta_body_throws_iff\<close> shows that this is the
  only shape on which the body throws.
\<close>

theorem nullish_data_throws:
  "delta_body [''generate_message''] \<lparr>event = ''messages'', data = JNull\<rparr> = Inl TypeError \<and>
   delta_loop [''generate_message'']
     \<lparr>pending = [\<lparr>event = ''messages'', data = JNull\<rparr>], failure = None, returned = False\<rparr>
   = (Throw TypeError, \<lparr>pending = [], failure = None, returned = True\<rparr>)"
  by (subst delta_loop.simps) (simp add: delta_body_def up_next_def up_return_def)

section \<open>Cancellation\<close>

text \<open>
  Claim C5 says that a cancel delivers no further frame and sends a termination signal
  into the producer that reaches the upstream event source, so that its subscription is
  released. The consumer has received the Start frame, the stream has pulled again, and
  the source has produced nothing yet, so this pull is in flight; now the consumer
  cancels. No frame is delivered any more, but \<^verbatim>\<open>generator.return()\<close> is queued behind the
  pending \<^verbatim>\<open>next()\<close> and the upstream is not told to return. Nothing the consumer does
  changes this, and neither does an event of another producer. Only when the source
  produces an included event (or ends) does the pending \<^verbatim>\<open>next()\<close> settle and the queued
  \<^verbatim>\<open>return()\<close> reach the upstream. When the event is there before the second pull, the
  generator is suspended at its \<^verbatim>\<open>yield\<close> when the cancel comes, and the upstream is
  returned at once.
\<close>

theorem cancel_behind_pending_pull:
  "chunks (the_stream (run [Pull, Pull, Cancel]
      (live_session silent_source [''generate_message''] ''id''))) = [start_step_part ''id''] \<and>
   state (the_stream (run [Pull, Pull, Cancel]
      (live_session silent_source [''generate_message''] ''id''))) = Closed \<and>
   pulling (run [Pull, Pull, Cancel]
      (live_session silent_source [''generate_message''] ''id'')) \<and>
   return_queued (run [Pull, Pull, Cancel]
      (live_session silent_source [''generate_message''] ''id'')) \<and>
   \<not> returned (gen_source (generator (the_stream (run [Pull, Pull, Cancel]
      (live_session silent_source [''generate_message''] ''id''))))) \<and>
   run [Pull, Pull, Cancel, Pull, Cancel]
      (live_session silent_source [''generate_message''] ''id'') =
     run [Pull, Pull, Cancel] (live_session silent_source [''generate_message''] ''id'') \<and>
   \<not> returned (gen_source (generator (the_stream (run [Pull, Pull, Cancel, Produce other_event]
      (live_session silent_source [''generate_message''] ''id''))))) \<and>
   returned (gen_source (generator (the_stream (run [Pull, Pull, Cancel, Produce sample_event]
      (live_session silent_source [''generate_message''] ''id''))))) \<and>
   chunks (the_stream (run [Pull, Pull, Cancel, Produce sample_event]
      (live_session silent_source [''generate_message''] ''id''))) = [start_step_part ''id''] \<and>
   returned (gen_source (generator (the_stream (run [Produce sample_event, Pull, Pull, Cancel]
      (live_session silent_source [''generate_message''] ''id'')))))"
  by code_simp

section \<open>One pull, one step\<close>

text \<open>
  Claim C6. A pull on a readable stream advances the generator by exactly one call of
  \<^verbatim>\<open>next()\<close>. If the call yields a frame, that frame and nothing else is enqueued. If it
  reports completion, the stream is closed, and from then on no pull changes the
  generator, the chunks or the state. Once the generator is suspended behind the
  MessageFinish frame, no pull delivers a frame and every call of \<^verbatim>\<open>next()\<close> reports
  completion.
\<close>

theorem pull_one_step:
  assumes "state rs = Readable"
  shows "generator (pull rs) = snd (full_next (generator rs)) \<and>
         (case fst (full_next (generator rs)) of
            Yield f \<Rightarrow> chunks (pull rs) = chunks rs @ [f] \<and> state (pull rs) = Readable
          | Done \<Rightarrow>
              chunks (pull rs) = chunks rs \<and> state (pull rs) = Closed \<and>
              (\<forall>k. generator (pulls k (pull rs)) = generator (pull rs) \<and>
                   chunks (pulls k (pull rs)) = chunks rs \<and>
                   state (pulls k (pull rs)) = Closed)
          | Throw e \<Rightarrow> chunks (pull rs) = chunks rs \<and> state (pull rs) = Errored e) \<and>
         (if gen_state (generator rs) = AtFinishMessage
          then \<forall>k. chunks (pulls k rs) = chunks rs \<and>
                   fst (full_next (generator (pulls k rs))) = Done
          else True)"
proof -
  obtain r g' where fn: "full_next (generator rs) = (r, g')"
    by (cases "full_next (generator rs)")
  have one: "generator (pull rs) = snd (full_next (generator rs))"
    using pulls_generator[of "Suc 0" rs] by simp
  have two: "case r of
            Yield f \<Rightarrow> chunks (pull rs) = chunks rs @ [f] \<and> state (pull rs) = Readable
          | Done \<Rightarrow>
              chunks (pull rs) = chunks rs \<and> state (pull rs) = Closed \<and>
              (\<forall>k. generator (pulls k (pull rs)) = generator (pull rs) \<and>
                   chunks (pulls k (pull rs)) = chunks rs \<and>
                   state (pulls k (pull rs)) = Closed)
          | Throw e \<Rightarrow> chunks (pull rs) = chunks rs \<and> state (pull rs) = Errored e"
  proof (cases r)
    case (Yield f)
    with fn assms show ?thesis by (simp add: pull_def controller_enqueue_def)
  next
    case Done
    with fn assms have p: "chunks (pull rs) = chunks rs" "state (pull rs) = Closed"
      "generator (pull rs) = g'"
      by (simp_all add: pull_def controller_close_def)
    from fn Done have "gen_state g' = Completed" by (simp add: full_next_done)
    with p have "gen_state (generator (pull rs)) = Completed" "state (pull rs) \<noteq> Readable"
      by simp_all
    from pulls_after_done[OF this] p Done show ?thesis by simp
  next
    case (Throw e)
    with fn assms show ?thesis by (simp add: pull_def controller_error_def)
  qed
  have three: "\<forall>k. chunks (pulls k rs) = chunks rs \<and>
                   fst (full_next (generator (pulls k rs))) = Done"
    if "gen_state (generator rs) = AtFinishMessage"
    using pulls_at_finish_message[OF that] by simp
  from one two three fn show ?thesis by simp
qed

text \<open>The first pull of the sample session enqueues the Start frame alone.\<close>

theorem pull_one_step_witness:
  "state (session sample_upstream [''generate_message''] ''id'') = Readable \<and>
   chunks (pull (session sample_upstream [''generate_message''] ''id'')) =
     [start_step_part ''id''] \<and>
   state (pull (session sample_upstream [''generate_message''] ''id'')) = Readable \<and>
   state (pulls 4 (session sample_upstream [''generate_message''] ''id'')) = Readable \<and>
   gen_state (generator (pulls 4 (session sample_upstream [''generate_message''] ''id''))) =
     AtFinishMessage \<and>
   chunks (pulls 3 (pulls 4 (session sample_upstream [''generate_message''] ''id''))) =
     chunks (pulls 4 (session sample_upstream [''generate_message''] ''id'')) \<and>
   state (pull (pulls 4 (session sample_upstream [''generate_message''] ''id''))) = Closed"
proof -
  let ?s = "session sample_upstream [''generate_message''] ''id''"
  have first: "chunks (pull ?s) = [start_step_part ''id''] \<and> state (pull ?s) = Readable"
    using pull_one_step[of ?s]
    by (simp add: session_initial full_next_def fullDataStreamGenerator_def)
  have drained: "state (pulls 4 ?s) = Readable"
    "gen_state (generator (pulls 4 ?s)) = AtFinishMessage"
    by (rule sample_drained)+
  then have nxt: "fst (full_next (generator (pulls 4 ?s))) = Done"
    by (simp add: full_next_def)
  from pull_one_step[OF drained(1)] drained(2) nxt
  have "chunks (pulls 3 (pulls 4 ?s)) = chunks (pulls 4 ?s)" "state (pull (pulls 4 ?s)) = Closed"
    by simp_all
  with first drained show ?thesis by (simp add: session_initial)
qed

section \<open>Failure of the upstream\<close>

text \<open>
  Claim C7. If the upstream sequence throws after its events, the consumer receives the
  Start frame and the Text frames of the events, each whole and in order; the pull that
  meets the failure enqueues nothing and errors the stream, so the stream is ended and
  not left open; and no StepFinish or MessageFinish frame is delivered, then or later.
  The error of the stream is the one of the upstream, unless the loop body threw on an
  earlier event.
\<close>

theorem upstream_failure_ends_stream:
  assumes "failure u = Some e"
  shows "\<exists>e'. (\<forall>n. chunks (pulls n (session u nodes mid)) =
                   take n (start_step_part mid # emitted nodes (pending u)) \<and>
                 state (pulls n (session u nodes mid)) =
                   (if n \<le> Suc (length (emitted nodes (pending u))) then Readable
                    else Errored e') \<and>
                 finish_step_part \<notin> set (chunks (pulls n (session u nodes mid))) \<and>
                 finish_message_part \<notin> set (chunks (pulls n (session u nodes mid)))) \<and>
              (if \<exists>m \<in> set (pending u). body_throws nodes m then e' = TypeError else e' = e)"
proof -
  from assms have "loop_end nodes (pending u) (failure u) \<noteq> None"
    by (simp add: loop_end_None_iff)
  then obtain e' where e': "loop_end nodes (pending u) (failure u) = Some e'" by auto
  then have sf: "session_frames u nodes mid = start_step_part mid # emitted nodes (pending u)"
    by (simp add: session_frames_def)
  have tail: "finish_step_part \<notin> set (start_step_part mid # emitted nodes (pending u))"
    "finish_message_part \<notin> set (start_step_part mid # emitted nodes (pending u))"
    using emitted_text[of finish_step_part nodes "pending u"]
      emitted_text[of finish_message_part nodes "pending u"]
    by (auto simp: part_types start_step_part_def finish_step_part_def finish_message_part_def
          formatDataStreamPart_def)
  have main: "chunks (pulls n (session u nodes mid)) =
                   take n (start_step_part mid # emitted nodes (pending u)) \<and>
                 state (pulls n (session u nodes mid)) =
                   (if n \<le> Suc (length (emitted nodes (pending u))) then Readable
                    else Errored e') \<and>
                 finish_step_part \<notin> set (chunks (pulls n (session u nodes mid))) \<and>
                 finish_message_part \<notin> set (chunks (pulls n (session u nodes mid)))" for n
  proof -
    have c: "chunks (pulls n (session u nodes mid)) =
               take n (start_step_part mid # emitted nodes (pending u))"
      using session_pulls[of n u nodes mid] sf by simp
    have s: "state (pulls n (session u nodes mid)) =
                   (if n \<le> Suc (length (emitted nodes (pending u))) then Readable
                    else Errored e')"
      using session_pulls[of n u nodes mid] sf e' by simp
    from c tail have "finish_step_part \<notin> set (chunks (pulls n (session u nodes mid)))"
      "finish_message_part \<notin> set (chunks (pulls n (session u nodes mid)))"
      by (auto dest: in_set_takeD)
    with c s show ?thesis by simp
  qed
  have which: "if \<exists>m \<in> set (pending u). body_throws nodes m then e' = TypeError else e' = e"
  proof (cases "\<exists>m \<in> set (pending u). body_throws nodes m")
    case False
    then have "loop_end nodes (pending u) (failure u) = failure u"
      by (simp add: loop_end_no_throw)
    with e' assms False show ?thesis by simp
  next
    case True
    have "loop_end nodes evs fin = Some x \<Longrightarrow> \<exists>m \<in> set evs. body_throws nodes m \<Longrightarrow>
            x = TypeError" for evs fin x
    proof (induction evs)
      case Nil
      then show ?case by simp
    next
      case (Cons m ms)
      show ?case
      proof (cases "delta_body nodes m")
        case (Inl err)
        then have "err = TypeError" by (simp add: delta_body_throws_iff)
        with Inl Cons.prems(1) show ?thesis by (simp add: loop_end_Cons)
      next
        case (Inr r)
        with Cons show ?thesis by (simp add: loop_end_Cons body_throws_def)
      qed
    qed
    from this[OF e' True] True show ?thesis by simp
  qed
  from main which show ?thesis by blast
qed

text \<open>The upstream that delivers the sample event and then fails.\<close>

theorem upstream_failure_ends_stream_witness:
  "failure failing_upstream = Some (UpstreamError ''reset'') \<and>
   chunks (pulls 3 (session failing_upstream [''generate_message''] ''id'')) =
     [start_step_part ''id'', formatDataStreamPart ''text'' (JStr ''Hi'')] \<and>
   state (pulls 3 (session failing_upstream [''generate_message''] ''id'')) =
     Errored (UpstreamError ''reset'')"
proof -
  have f: "failure failing_upstream = Some (UpstreamError ''reset'')"
    by (simp add: failing_upstream_def)
  have e: "emitted [''generate_message''] (pending failing_upstream) =
             [formatDataStreamPart ''text'' (JStr ''Hi'')]"
    by (simp add: failing_upstream_def sample_emitted)
  have t: "\<not> (\<exists>m \<in> set (pending failing_upstream). body_throws [''generate_message''] m)"
    by (simp add: failing_upstream_def sample_no_throw)
  from upstream_failure_ends_stream[OF f, of "[''generate_message'']" "''id''"] e t f
  show ?thesis by auto
qed

section \<open>The finish frames\<close>

text \<open>
  Claim C8. Every StepFinish frame a session delivers carries finish reason \<^verbatim>\<open>stop\<close>,
  usage \<^verbatim>\<open>promptTokens 55, completionTokens 20\<close> and \<^verbatim>\<open>isContinued false\<close>; every
  MessageFinish frame carries finish reason \<^verbatim>\<open>stop\<close> and the same usage; the values do not
  depend on the events. When the upstream ends normally and the loop body throws on no
  event, both frames are delivered, in this order, at the end.
\<close>

theorem finish_frames_fixed:
  "(\<forall>f \<in> set (chunks (pulls n (session u nodes mid))).
      (part_type f = ''finish_step'' \<longrightarrow>
         part_value f =
           JObj [(''finishReason'', JStr ''stop''),
                 (''usage'', JObj [(''promptTokens'', JNum 55), (''completionTokens'', JNum 20)]),
                 (''isContinued'', JBool False)]) \<and>
      (part_type f = ''finish_message'' \<longrightarrow>
         part_value f =
           JObj [(''finishReason'', JStr ''stop''),
                 (''usage'', JObj [(''promptTokens'', JNum 55), (''completionTokens'', JNum 20)])])) \<and>
   get_named (part_value finish_step_part) ''usage'' =
     get_named (part_value finish_message_part) ''usage'' \<and>
   (failure u = None \<and> (\<forall>m \<in> set (pending u). \<not> body_throws nodes m) \<longrightarrow>
      (\<forall>k. chunks (pulls (length (emitted nodes (pending u)) + 3 + k) (session u nodes mid)) =
             start_step_part mid # emitted nodes (pending u) @
               [finish_step_part, finish_message_part]))"
proof -
  have a: "part_value f =
           JObj [(''finishReason'', JStr ''stop''),
                 (''usage'', JObj [(''promptTokens'', JNum 55), (''completionTokens'', JNum 20)]),
                 (''isContinued'', JBool False)]"
    if "f \<in> set (chunks (pulls n (session u nodes mid)))" "part_type f = ''finish_step''" for f
  proof -
    from that(1) have "f \<in> set (session_frames u nodes mid)"
      using session_pulls[of n u nodes mid] by (auto dest: in_set_takeD)
    from session_frames_finish[OF this] that(2) show ?thesis by (simp add: finish_values)
  qed
  have b: "part_value f =
           JObj [(''finishReason'', JStr ''stop''),
                 (''usage'', JObj [(''promptTokens'', JNum 55), (''completionTokens'', JNum 20)])]"
    if "f \<in> set (chunks (pulls n (session u nodes mid)))" "part_type f = ''finish_message''" for f
  proof -
    from that(1) have "f \<in> set (session_frames u nodes mid)"
      using session_pulls[of n u nodes mid] by (auto dest: in_set_takeD)
    from session_frames_finish[OF this] that(2) show ?thesis by (simp add: finish_values)
  qed
  have c: "get_named (part_value finish_step_part) ''usage'' =
     get_named (part_value finish_message_part) ''usage''"
    by (simp add: finish_values)
  have d: "chunks (pulls (length (emitted nodes (pending u)) + 3 + k) (session u nodes mid)) =
             start_step_part mid # emitted nodes (pending u) @
               [finish_step_part, finish_message_part]"
    if "loop_end nodes (pending u) (failure u) = None" for k
    using session_pulls[of "length (emitted nodes (pending u)) + 3 + k" u nodes mid] that
    by (simp add: session_frames_def)
  from a b c d show ?thesis by (simp add: loop_end_None_iff)
qed

text \<open>The sample session, drained.\<close>

theorem finish_frames_fixed_witness:
  "failure sample_upstream = None \<and>
   chunks (pulls 4 (session sample_upstream [''generate_message''] ''id'')) =
     [start_step_part ''id'', formatDataStreamPart ''text'' (JStr ''Hi''),
      finish_step_part, finish_message_part] \<and>
   part_type finish_step_part = ''finish_step'' \<and>
   part_value finish_step_part =
     JObj [(''finishReason'', JStr ''stop''),
           (''usage'', JObj [(''promptTokens'', JNum 55), (''completionTokens'', JNum 20)]),
           (''isContinued'', JBool False)] \<and>
   part_type finish_message_part = ''finish_message'' \<and>
   part_value finish_message_part =
     JObj [(''finishReason'', JStr ''stop''),
           (''usage'', JObj [(''promptTokens'', JNum 55), (''completionTokens'', JNum 20)])]"
proof -
  have f: "failure sample_upstream = None"
    "\<forall>m \<in> set (pending sample_upstream). \<not> body_throws [''generate_message''] m"
    by (simp_all add: sample_upstream_def sample_no_throw)
  have e: "emitted [''generate_message''] (pending sample_upstream) =
             [formatDataStreamPart ''text'' (JStr ''Hi'')]"
    by (simp add: sample_upstream_def sample_emitted)
  have c: "chunks (pulls 4 (session sample_upstream [''generate_message''] ''id'')) =
     [start_step_part ''id'', formatDataStreamPart ''text'' (JStr ''Hi''),
      finish_step_part, finish_message_part]"
    using finish_frames_fixed[of 4 sample_upstream "[''generate_message'']" "''id''"] f e
    by (auto dest: spec[of _ 0])
  then have "finish_step_part \<in> set (chunks (pulls 4 (session sample_upstream [''generate_message''] ''id'')))"
    "finish_message_part \<in> set (chunks (pulls 4 (session sample_upstream [''generate_message''] ''id'')))"
    by simp_all
  with finish_frames_fixed[of 4 sample_upstream "[''generate_message'']" "''id''"] f c
  show ?thesis by (auto simp: part_types)
qed

section \<open>The response\<close>

text \<open>
  Claim C9. Header preparation sets the content type it is given only when the supplied
  header set has no \<^verbatim>\<open>Content-Type\<close> entry, and leaves the caller's value otherwise; the
  protocol-version header is set to the version whatever the supplied headers hold, and
  the assembler always passes \<^verbatim>\<open>v1\<close>; the response has status 200 and status text
  \<^verbatim>\<open>OK\<close> for every input.
\<close>

theorem response_headers_and_status:
  "headers_get (prepareResponseHeaders h ct (Some v)) ''Content-Type'' =
     (if headers_has (new_Headers (case h of None \<Rightarrow> [] | Some l \<Rightarrow> l)) ''Content-Type''
      then headers_get (new_Headers (case h of None \<Rightarrow> [] | Some l \<Rightarrow> l)) ''Content-Type''
      else Some ct) \<and>
   headers_get (prepareResponseHeaders h ct (Some v)) ''X-Vercel-AI-Data-Stream'' = Some v \<and>
   headers_get (headers (toDataStreamResponse u nodes mid)) ''X-Vercel-AI-Data-Stream'' =
     Some ''v1'' \<and>
   status (toDataStreamResponse u nodes mid) = 200 \<and>
   statusText (toDataStreamResponse u nodes mid) = ''OK''"
proof -
  let ?h0 = "new_Headers (case h of None \<Rightarrow> [] | Some l \<Rightarrow> l)"
  let ?h1 = "if \<not> headers_has ?h0 ''Content-Type''
             then headers_set ?h0 ''Content-Type'' ct else ?h0"
  have p: "prepareResponseHeaders h ct (Some v) = headers_set ?h1 ''X-Vercel-AI-Data-Stream'' v"
    by (simp add: prepareResponseHeaders_def Let_def)
  have "headers_get (headers_set ?h1 ''X-Vercel-AI-Data-Stream'' v) ''Content-Type'' =
          headers_get ?h1 ''Content-Type''"
    by (rule headers_get_set_other) (rule header_names_differ)
  then have a: "headers_get (prepareResponseHeaders h ct (Some v)) ''Content-Type'' =
     (if headers_has ?h0 ''Content-Type'' then headers_get ?h0 ''Content-Type'' else Some ct)"
    by (simp add: p headers_get_set_same)
  have b: "headers_get (prepareResponseHeaders h ct (Some v)) ''X-Vercel-AI-Data-Stream'' = Some v"
    by (simp only: p headers_get_set_same)
  have c: "headers (toDataStreamResponse u nodes mid) =
             prepareResponseHeaders (Some []) ''text/plain; charset=utf-8'' (Some ''v1'')"
    "status (toDataStreamResponse u nodes mid) = 200"
    "statusText (toDataStreamResponse u nodes mid) = ''OK''"
    by (simp_all add: toDataStreamResponse_def)
  have d: "headers_get (headers (toDataStreamResponse u nodes mid)) ''X-Vercel-AI-Data-Stream'' =
     Some ''v1''"
    unfolding c(1) by (simp only: prepareResponseHeaders_def Let_def option.case headers_get_set_same)
  from a b c d show ?thesis by simp
qed

text \<open>A caller's content type is kept; without one the default is set.\<close>

theorem response_headers_and_status_witness:
  "headers_get (prepareResponseHeaders (Some [(''content-type'', ''application/json'')])
       ''text/plain; charset=utf-8'' (Some ''v1'')) ''Content-Type'' = Some ''application/json'' \<and>
   headers_get (prepareResponseHeaders None ''text/plain; charset=utf-8'' (Some ''v1''))
       ''Content-Type'' = Some ''text/plain; charset=utf-8''"
  using response_headers_and_status[of "Some [(''content-type'', ''application/json'')]"
      "''text/plain; charset=utf-8''" "''v1''"]
    response_headers_and_status[of None "''text/plain; charset=utf-8''" "''v1''"]
  by (simp add: new_Headers_def headers_append_def headers_has_def headers_get_def
        lower_content_type lower_name_def lower_char_def)

text \<open>
  Claim C10. \<^verbatim>\<open>toDataStreamResponse\<close> prepares the headers from an empty header set, in
  which there is no \<^verbatim>\<open>Content-Type\<close> entry, so for every invocation the response carries
  exactly \<^verbatim>\<open>Content-Type: text/plain; charset=utf-8\<close> and
  \<^verbatim>\<open>X-Vercel-AI-Data-Stream: v1\<close>.
\<close>

theorem public_entry_headers:
  "headers (toDataStreamResponse u nodes mid) =
     prepareResponseHeaders (Some []) ''text/plain; charset=utf-8'' (Some ''v1'') \<and>
   \<not> headers_has (new_Headers []) ''Content-Type'' \<and>
   headers (toDataStreamResponse u nodes mid) =
     [(''content-type'', ''text/plain; charset=utf-8''), (''x-vercel-ai-data-stream'', ''v1'')] \<and>
   headers_get (headers (toDataStreamResponse u nodes mid)) ''Content-Type'' =
     Some ''text/plain; charset=utf-8'' \<and>
   headers_get (headers (toDataStreamResponse u nodes mid)) ''X-Vercel-AI-Data-Stream'' =
     Some ''v1''"
  by (simp add: toDataStreamResponse_def prepareResponseHeaders_def new_Headers_def
        headers_has_def headers_set_def headers_append_def headers_get_def
        lower_content_type lower_version)

end
